theory Spec2Isabelle
  imports Main "HOL-Library.Sublist"
begin

section \<open>Python string primitives used by the token heuristic\<close>

text \<open>
  A Python \<open>str\<close> is modelled as a \<open>string\<close>; a \<open>char\<close> stands for a code point
  below 256.  In that range \<open>str.isspace\<close> holds for the code points 9 to 13, 28 to 32,
  133 and 160, \<open>str.splitlines\<close> breaks at 10 to 13, 28 to 30 and 133, and the digits
  that \<open>\\d\<close> matches are the code points 48 to 57.
\<close>

definition is_space :: "char \<Rightarrow> bool" where
  "is_space c = (c \<in> set [CHR 0x09, CHR 0x0A, CHR 0x0B, CHR 0x0C, CHR 0x0D, CHR 0x1C,
                           CHR 0x1D, CHR 0x1E, CHR 0x1F, CHR 0x20, CHR 0x85, CHR 0xA0])"

definition is_linebreak :: "char \<Rightarrow> bool" where
  "is_linebreak c = (c \<in> set [CHR 0x0A, CHR 0x0B, CHR 0x0C, CHR 0x0D, CHR 0x1C,
                               CHR 0x1D, CHR 0x1E, CHR 0x85])"

definition is_digit :: "char \<Rightarrow> bool" where
  "is_digit c = (48 \<le> (of_char c :: nat) \<and> (of_char c :: nat) \<le> 57)"

text \<open>\<open>s.strip()\<close>: whitespace removed at both ends.\<close>

definition strip :: "string \<Rightarrow> string" where
  "strip s = rev (dropWhile is_space (rev (dropWhile is_space s)))"

text \<open>
  \<open>source.splitlines()\<close>: the first argument is the line read so far.  A carriage return
  followed by a line feed is one break; no empty line is produced after a final break.
\<close>

fun splitlines_from :: "string \<Rightarrow> string \<Rightarrow> string list" where
  "splitlines_from cur [] = (if cur = [] then [] else [cur])"
| "splitlines_from cur [c] = (if is_linebreak c then [cur] else [cur @ [c]])"
| "splitlines_from cur (c # d # cs) =
     (if c = CHR 0x0D \<and> d = CHR 0x0A then cur # splitlines_from [] cs
      else if is_linebreak c then cur # splitlines_from [] (d # cs)
      else splitlines_from (cur @ [c]) (d # cs))"

definition splitlines :: "string \<Rightarrow> string list" where
  "splitlines source = splitlines_from [] source"

text \<open>The decimal numeral that an f-string prints for a counter value.\<close>

definition digit_char :: "nat \<Rightarrow> char" where
  "digit_char d = char_of (48 + d)"

fun str_nat :: "nat \<Rightarrow> string" where
  "str_nat n = (if n < 10 then [digit_char n] else str_nat (n div 10) @ [digit_char (n mod 10)])"

declare str_nat.simps [simp del]

section \<open>cfg\_builder.py: the token labeler\<close>

definition KEYWORDS :: "string list" where
  "KEYWORDS = [''if'', ''elif'', ''else'', ''for'', ''while'']"

text \<open>\<open>indent_level\<close>: every tab becomes four spaces, then the leading spaces are counted.\<close>

definition indent_level :: "string \<Rightarrow> nat" where
  "indent_level line =
     (let l = concat (map (\<lambda>c. if c = CHR 0x09 then ''    '' else [c]) line)
      in length l - length (dropWhile (\<lambda>c. c = CHR '' '') l))"

text \<open>
  \<open>extract_keyword\<close>: the first keyword of \<open>KEYWORDS\<close>, in that order, that the stripped
  line starts with, together with the stripped remainder; \<open>None\<close> stands for the pair
  \<open>(None, None)\<close>.
\<close>

fun first_keyword :: "string list \<Rightarrow> string \<Rightarrow> (string \<times> string) option" where
  "first_keyword [] s = None"
| "first_keyword (kw # kws) s =
     (if prefix kw s then Some (kw, strip (drop (length kw) s)) else first_keyword kws s)"

definition extract_keyword :: "string \<Rightarrow> (string \<times> string) option" where
  "extract_keyword line = first_keyword KEYWORDS (strip line)"

text \<open>
  The state of the loop of \<open>build_listM\<close>: the global counter, the stack of open blocks
  (the top is the last element, as in the Python list) and the labels emitted so far.
\<close>

record lstate =
  count :: nat
  stack :: "(nat \<times> string) list"
  listM :: "string list"

text \<open>\<open>while stack and lvl <= stack[-1][0]: stack.pop()\<close>\<close>

function pop_ended :: "nat \<Rightarrow> (nat \<times> string) list \<Rightarrow> (nat \<times> string) list" where
  "pop_ended lvl stk =
     (if stk \<noteq> [] \<and> lvl \<le> fst (last stk) then pop_ended lvl (butlast stk) else stk)"
  by pat_completeness auto
termination
  by (relation "measure (\<lambda>(lvl, stk). length stk)") auto

declare pop_ended.simps [simp del]

text \<open>
  One iteration of the loop over the lines.  A blank line is skipped before anything
  else; on every other line the ended blocks are popped first, and only then is a line
  without a keyword skipped.
\<close>

definition label_line :: "lstate \<Rightarrow> string \<Rightarrow> lstate" where
  "label_line s line =
     (if strip line = [] then s
      else
        let lvl = indent_level line;
            stk = pop_ended lvl (stack s);
            nested = (stk \<noteq> [])
        in case extract_keyword line of
             None \<Rightarrow> s\<lparr>stack := stk\<rparr>
           | Some (kw, rest) \<Rightarrow>
               let c = count s + 1 in
               if kw = ''if'' \<or> kw = ''elif'' then
                 let label = (if \<not> nested then kw @ str_nat c else kw @ ''sp'' @ str_nat c);
                     explabel = (if \<not> nested then kw @ ''exp'' @ str_nat c
                                 else kw @ ''spexp'' @ str_nat c)
                 in \<lparr>count = c, stack = stk @ [(lvl, label)],
                     listM = listM s @ [label, explabel]\<rparr>
               else if kw = ''else'' then
                 let label = (if \<not> nested then ''else'' @ str_nat c
                              else ''elsesp'' @ str_nat c)
                 in \<lparr>count = c, stack = stk @ [(lvl, label)], listM = listM s @ [label]\<rparr>
               else if kw = ''for'' \<or> kw = ''while'' then
                 let label = (if \<not> nested then kw @ str_nat c else kw @ ''sp'' @ str_nat c)
                 in \<lparr>count = c, stack = stk @ [(lvl, label)], listM = listM s @ [label]\<rparr>
               else \<lparr>count = c, stack = stk, listM = listM s\<rparr>)"

definition init_lstate :: lstate where
  "init_lstate = \<lparr>count = 0, stack = [], listM = []\<rparr>"

definition label_lines :: "string list \<Rightarrow> lstate" where
  "label_lines ls = foldl label_line init_lstate ls"

definition build_listM :: "string \<Rightarrow> string list" where
  "build_listM source = ''start'' # listM (label_lines (splitlines source)) @ [''end'']"

section \<open>cfg\_builder.py: the edge generator\<close>

text \<open>
  \<open>create_nodes\<close> is \<open>list(dict.fromkeys(listM))\<close>: a key keeps the position of its
  first occurrence.
\<close>

definition create_nodes :: "string list \<Rightarrow> string list" where
  "create_nodes ls = foldl (\<lambda>ks k. if k \<in> set ks then ks else ks @ [k]) [] ls"

text \<open>\<open>re.fullmatch\<close> of a literal stem followed by \<open>\\d+\<close>.\<close>

definition stem_digits :: "string \<Rightarrow> string \<Rightarrow> bool" where
  "stem_digits stem token =
     (prefix stem token \<and> drop (length stem) token \<noteq> [] \<and>
      list_all is_digit (drop (length stem) token))"

definition is_plain_if :: "string \<Rightarrow> bool" where
  "is_plain_if token = stem_digits ''if'' token"

definition is_plain_elif :: "string \<Rightarrow> bool" where
  "is_plain_elif token = stem_digits ''elif'' token"

definition is_plain_else :: "string \<Rightarrow> bool" where
  "is_plain_else token = stem_digits ''else'' token"

definition is_plain_exp :: "string \<Rightarrow> bool" where
  "is_plain_exp token = (stem_digits ''ifexp'' token \<or> stem_digits ''elifexp'' token)"

definition is_branch_kw :: "string \<Rightarrow> bool" where
  "is_branch_kw token = (is_plain_elif token \<or> is_plain_else token \<or> token = ''end'')"

text \<open>
  The state of the loop of \<open>generate_cfg\<close>.  The locals \<open>f\<close> and \<open>f1\<close> of the source
  are assigned the loop header and never read, so they are not part of the state.
\<close>

record cfg_state =
  edges :: "(string \<times> string) list"
  list3 :: "string list"
  st :: "nat option"
  en :: "nat option"
  stfor :: "nat option"
  enfor :: "nat option"

text \<open>The truth value Python gives to \<open>nxt\<close>: neither \<open>None\<close> nor the empty string.\<close>

definition truthy :: "string option \<Rightarrow> bool" where
  "truthy t = (case t of None \<Rightarrow> False | Some x \<Rightarrow> x \<noteq> [])"

text \<open>\<open>nxt and p(nxt)\<close>\<close>

definition nxt_and :: "string option \<Rightarrow> (string \<Rightarrow> bool) \<Rightarrow> bool" where
  "nxt_and t p = (case t of None \<Rightarrow> False | Some x \<Rightarrow> x \<noteq> [] \<and> p x)"

text \<open>\<open>if nxt: edges.append((cur, nxt))\<close>\<close>

definition edge_to_nxt :: "string \<Rightarrow> string option \<Rightarrow> (string \<times> string) list" where
  "edge_to_nxt cur t = (case t of None \<Rightarrow> [] | Some x \<Rightarrow> if x \<noteq> [] then [(cur, x)] else [])"

text \<open>\<open>st is not None and en is not None and (st <= i <= en)\<close>\<close>

definition in_range :: "nat option \<Rightarrow> nat option \<Rightarrow> nat \<Rightarrow> bool" where
  "in_range a b i =
     (case a of None \<Rightarrow> False
      | Some lo \<Rightarrow> (case b of None \<Rightarrow> False | Some hi \<Rightarrow> lo \<le> i \<and> i \<le> hi))"

text \<open>The first index after \<open>i\<close> whose label does not contain \<open>sp\<close>.\<close>

definition first_plain :: "string list \<Rightarrow> nat \<Rightarrow> nat option" where
  "first_plain ls i = find (\<lambda>k. \<not> sublist ''sp'' (ls ! k)) [i + 1 ..< length ls]"

text \<open>
  The edges a non-nested loop header adds, and the index found for the end of its range.
\<close>

definition loop_header_edges ::
  "string list \<Rightarrow> nat \<Rightarrow> string \<Rightarrow> string option \<Rightarrow> (string \<times> string) list" where
  "loop_header_edges ls i cur nxt =
     (if nxt_and nxt (\<lambda>x. \<not> sublist ''sp'' x) then [(cur, cur)] else []) @
     (case first_plain ls i of
        None \<Rightarrow> []
      | Some j \<Rightarrow> (cur, ls ! j) #
                  (if truthy nxt \<and> ls ! (i + 1) \<noteq> ls ! j then [(cur, ls ! (i + 1))] else []))"

text \<open>One iteration of the main loop, at index \<open>i\<close>; every branch ends with \<open>i += 1\<close>.\<close>

definition cfg_step :: "string list \<Rightarrow> nat \<Rightarrow> cfg_state \<Rightarrow> cfg_state" where
  "cfg_step ls i s =
     (let cur = ls ! i;
          nxt = (if i + 1 < length ls then Some (ls ! (i + 1)) else None)
      in
      if is_plain_exp cur then s
      else if (is_plain_if cur \<or> is_plain_elif cur) \<and> nxt_and nxt is_plain_exp then
        (let x = ls ! (i + 1) in
         case find is_branch_kw (drop (i + 2) ls) of
           None \<Rightarrow>
             s\<lparr>edges := edges s @ [(cur, x), (x, ''end'')], list3 := list3 s @ [cur, x]\<rparr>
         | Some b \<Rightarrow>
             s\<lparr>edges := edges s @ [(cur, x), (cur, b), (x, ''end'')],
               list3 := list3 s @ [cur, x, b]\<rparr>)
      else if is_plain_else cur then
        s\<lparr>edges := edges s @ [(cur, ''end'')], list3 := list3 s @ [cur]\<rparr>
      else if prefix ''forsp'' cur then
        s\<lparr>edges := edges s @ [(cur, cur)] @
           (if 1 \<le> i \<and> sublist ''for'' (ls ! (i - 1)) then [(cur, ls ! (i - 1))]
            else if nxt_and nxt (sublist ''sp'') then [(cur, ls ! (i + 1))]
            else if in_range (st s) (en s) i then [(cur, ''f'')]
            else edge_to_nxt cur nxt)\<rparr>
      else if prefix ''for'' cur \<and> \<not> sublist ''sp'' cur then
        s\<lparr>edges := edges s @ loop_header_edges ls i cur nxt,
          stfor := Some i,
          enfor := (case first_plain ls i of None \<Rightarrow> enfor s | Some j \<Rightarrow> Some j)\<rparr>
      else if prefix ''while'' cur \<and> \<not> sublist ''sp'' cur then
        s\<lparr>edges := edges s @ loop_header_edges ls i cur nxt,
          st := Some i,
          en := (case first_plain ls i of None \<Rightarrow> en s | Some j \<Rightarrow> Some j)\<rparr>
      else if prefix ''whilesp'' cur then
        s\<lparr>edges := edges s @
           (if in_range (st s) (en s) i then [(cur, ''f'')] else edge_to_nxt cur nxt) @
           [(cur, cur)]\<rparr>
      else s\<lparr>edges := edges s @ edge_to_nxt cur nxt\<rparr>)"

text \<open>\<open>while i < len(listM) - 1\<close>\<close>

function cfg_loop :: "string list \<Rightarrow> nat \<Rightarrow> cfg_state \<Rightarrow> cfg_state" where
  "cfg_loop ls i s = (if i + 1 < length ls then cfg_loop ls (i + 1) (cfg_step ls i s) else s)"
  by pat_completeness auto
termination
  by (relation "measure (\<lambda>(ls, i, s). length ls - i)") auto

declare cfg_loop.simps [simp del]

text \<open>
  The de-duplication of the edges, with the list built so far; the set \<open>seen\<close> of the
  source always holds exactly its elements.  No edge has a \<open>None\<close> component, so that
  test of the source never fails.
\<close>

definition uniq_edges :: "(string \<times> string) list \<Rightarrow> (string \<times> string) list" where
  "uniq_edges es = foldl (\<lambda>us e. if e \<notin> set us then us @ [e] else us) [] es"

text \<open>The frequency dictionary of \<open>list3\<close>, as an association list in insertion order.\<close>

definition freq_add :: "(string \<times> nat) list \<Rightarrow> string \<Rightarrow> (string \<times> nat) list" where
  "freq_add d n =
     (case map_of d n of
        None \<Rightarrow> d @ [(n, 1)]
      | Some c \<Rightarrow> map (\<lambda>(k, v). if k = n then (k, v + 1) else (k, v)) d)"

definition init_cfg_state :: "string list \<Rightarrow> cfg_state" where
  "init_cfg_state ls =
     \<lparr>edges = (if 2 \<le> length ls then [(ls ! 0, ls ! 1)] else []), list3 = [],
      st = None, en = None, stfor = None, enfor = None\<rparr>"

definition generate_cfg ::
  "string list \<Rightarrow> string list \<times> (string \<times> string) list \<times> string list \<times> (string \<times> nat) list"
  where
  "generate_cfg ls =
     (let s = cfg_loop ls 1 (init_cfg_state ls)
      in (create_nodes ls, uniq_edges (edges s), list3 s, foldl freq_add [] (list3 s)))"

text \<open>\<open>build_adj_from_edges\<close>: the adjacency dictionary, as an association list.\<close>

definition adj_add ::
  "(string \<times> string list) list \<Rightarrow> string \<times> string \<Rightarrow> (string \<times> string list) list" where
  "adj_add d e =
     (case map_of d (fst e) of
        None \<Rightarrow> d @ [(fst e, [snd e])]
      | Some bs \<Rightarrow> map (\<lambda>(k, v). if k = fst e then (k, v @ [snd e]) else (k, v)) d)"

definition build_adj_from_edges :: "(string \<times> string) list \<Rightarrow> (string \<times> string list) list" where
  "build_adj_from_edges es = foldl adj_add [] es"

section \<open>paths\_finder.py\<close>

text \<open>\<open>d.get(k, [])\<close>\<close>

definition adj :: "(string \<times> string list) list \<Rightarrow> string \<Rightarrow> string list" where
  "adj d k = (case map_of d k of None \<Rightarrow> [] | Some v \<Rightarrow> v)"

text \<open>
  The inner loop taken when \<open>node\<close> is already on the path: it stops at a self-loop,
  and at the label \<open>end\<close> it yields one path and stops.
\<close>

fun back_edge_scan :: "string \<Rightarrow> string list \<Rightarrow> string list \<Rightarrow> string list list" where
  "back_edge_scan node path [] = []"
| "back_edge_scan node path (i # rest) =
     (if i = node then []
      else if i = ''end'' then [path @ [node, ''end'']]
      else back_edge_scan node path rest)"

definition all_nodes :: "(string \<times> string list) list \<Rightarrow> string set" where
  "all_nodes d = set (concat (map snd d))"

function find_all_paths ::
  "(string \<times> string list) list \<Rightarrow> string \<Rightarrow> string \<Rightarrow> string list \<Rightarrow> string list list" where
  "find_all_paths d source dest path0 =
     (if source = dest then [path0 @ [source]]
      else concat (map (\<lambda>node.
             if node \<in> set (path0 @ [source])
             then back_edge_scan node (path0 @ [source]) (adj d node)
             else find_all_paths d node dest (path0 @ [source]))
           (adj d source)))"
  by pat_completeness auto

lemma adj_in_all_nodes: "x \<in> set (adj d k) \<Longrightarrow> x \<in> all_nodes d"
proof -
  assume a: "x \<in> set (adj d k)"
  then obtain v where v: "map_of d k = Some v" "x \<in> set v"
    by (cases "map_of d k") (auto simp: adj_def)
  from v(1) have "(k, v) \<in> set d" by (rule map_of_SomeD)
  with v(2) show ?thesis unfolding all_nodes_def by force
qed

text \<open>
  The recursion ends on every dictionary: each call puts on the path a node of the
  dictionary that was not on it.
\<close>

termination find_all_paths
proof (relation "measure (\<lambda>(d, source, dest, path0).
                   card (all_nodes d - set (path0 @ [source])))")
  show "wf (measure (\<lambda>(d, source, dest, path0). card (all_nodes d - set (path0 @ [source]))))"
    by simp
next
  fix d :: "(string \<times> string list) list" and source dest node :: string
    and path0 :: "string list"
  assume n: "node \<in> set (adj d source)" "node \<notin> set (path0 @ [source])"
  have fin: "finite (all_nodes d - set (path0 @ [source]))"
    by (simp add: all_nodes_def)
  have "node \<in> all_nodes d"
    using n(1) by (rule adj_in_all_nodes)
  then have "all_nodes d - set ((path0 @ [source]) @ [node])
             \<subset> all_nodes d - set (path0 @ [source])"
    using n(2) by auto
  then have "card (all_nodes d - set ((path0 @ [source]) @ [node]))
             < card (all_nodes d - set (path0 @ [source]))"
    using fin by (rule psubset_card_mono[rotated])
  then show "((d, node, dest, path0 @ [source]), (d, source, dest, path0))
             \<in> measure (\<lambda>(d, source, dest, path0). card (all_nodes d - set (path0 @ [source])))"
    by (simp add: insert_commute)
qed

declare find_all_paths.simps [simp del]

section \<open>gui.py: the complexity shown by \<open>on_complexity\<close>\<close>

text \<open>
  \<open>V = E - N + 2\<close>, raised to 1 when smaller; \<open>None\<close> stands for the early return taken
  when no graph has been built.
\<close>

definition on_complexity :: "string list \<Rightarrow> (string \<times> string) list \<Rightarrow> int option" where
  "on_complexity nodes es =
     (if nodes = [] \<or> es = [] then None
      else let v = int (length es) - int (length nodes) + 2
           in Some (if v < 1 then 1 else v))"

section \<open>The sample program of main.py\<close>

definition sample_program :: string where
  "sample_program =
     ''var=int(input())'' @ [CHR 0x0A] @
     ''if(var == 200):'' @ [CHR 0x0A] @
     ''    print ('' @ [CHR 0x22] @ ''1 - Got a true expression value'' @ [CHR 0x22] @ '')'' @ [CHR 0x0A] @
     ''    print (var)'' @ [CHR 0x0A] @
     ''elif var == 150:'' @ [CHR 0x0A] @
     ''    print ('' @ [CHR 0x22] @ ''2 - Got a true expression value'' @ [CHR 0x22] @ '')'' @ [CHR 0x0A] @
     ''    print (var)'' @ [CHR 0x0A] @
     ''elif var == 100:'' @ [CHR 0x0A] @
     ''    print ('' @ [CHR 0x22] @ ''3 - Got a true expression value'' @ [CHR 0x22] @ '')'' @ [CHR 0x0A] @
     ''    print (var)'' @ [CHR 0x0A] @
     ''else:'' @ [CHR 0x0A] @
     ''    print ('' @ [CHR 0x22] @ ''4 - Got a false expression value'' @ [CHR 0x22] @ '')'' @ [CHR 0x0A] @
     ''    print (var)'' @ [CHR 0x0A]"

section \<open>Scenario 1: the if/elif/elif/else chain of main.py\<close>

lemma sample_listM:
  "build_listM sample_program =
     [''start'', ''if1'', ''ifexp1'', ''elif2'', ''elifexp2'', ''elif3'', ''elifexp3'',
      ''else4'', ''end'']"
  by code_simp

lemma sample_cfg:
  "generate_cfg [''start'', ''if1'', ''ifexp1'', ''elif2'', ''elifexp2'', ''elif3'',
                 ''elifexp3'', ''else4'', ''end''] =
     ([''start'', ''if1'', ''ifexp1'', ''elif2'', ''elifexp2'', ''elif3'', ''elifexp3'',
       ''else4'', ''end''],
      [(''start'', ''if1''), (''if1'', ''ifexp1''), (''if1'', ''elif2''),
       (''ifexp1'', ''end''), (''elif2'', ''elifexp2''), (''elif2'', ''elif3''),
       (''elifexp2'', ''end''), (''elif3'', ''elifexp3''), (''elif3'', ''else4''),
       (''elifexp3'', ''end''), (''else4'', ''end'')],
      [''if1'', ''ifexp1'', ''elif2'', ''elif2'', ''elifexp2'', ''elif3'', ''elif3'',
       ''elifexp3'', ''else4'', ''else4''],
      [(''if1'', 1), (''ifexp1'', 1), (''elif2'', 2), (''elifexp2'', 1), (''elif3'', 2),
       (''elifexp3'', 1), (''else4'', 2)])"
  by code_simp

text \<open>
  Claim C1, as the code has it.  On the sample program (one statement, then an
  if/elif/elif/else chain with two print lines in each branch) the labeler returns
  start, if1, ifexp1, elif2, elifexp2, elif3, elifexp3, else4, end.  The edge generator
  returns these 9 nodes and 11 edges: the edge from start to if1, which it always adds
  first, and then the ten pairs of the scenario.  The complexity shown is
  11 - 9 + 2 = 4.
\<close>

theorem C1_scenario1:
  "build_listM sample_program =
     [''start'', ''if1'', ''ifexp1'', ''elif2'', ''elifexp2'', ''elif3'', ''elifexp3'',
      ''else4'', ''end''] \<and>
   fst (generate_cfg (build_listM sample_program)) = build_listM sample_program \<and>
   length (fst (generate_cfg (build_listM sample_program))) = 9 \<and>
   fst (snd (generate_cfg (build_listM sample_program))) =
     [(''start'', ''if1''), (''if1'', ''ifexp1''), (''if1'', ''elif2''),
      (''ifexp1'', ''end''), (''elif2'', ''elifexp2''), (''elif2'', ''elif3''),
      (''elifexp2'', ''end''), (''elif3'', ''elifexp3''), (''elif3'', ''else4''),
      (''elifexp3'', ''end''), (''else4'', ''end'')] \<and>
   length (fst (snd (generate_cfg (build_listM sample_program)))) = 11 \<and>
   on_complexity (fst (generate_cfg (build_listM sample_program)))
     (fst (snd (generate_cfg (build_listM sample_program)))) = Some 4"
  by (simp add: sample_listM sample_cfg on_complexity_def)

text \<open>
  The claim as the specification states it fails on the sample program: the edge list
  does not have 10 edges, and the complexity is not 3.
\<close>

theorem C1_scenario1_counterexample:
  "length (fst (snd (generate_cfg (build_listM sample_program)))) \<noteq> 10 \<and>
   on_complexity (fst (generate_cfg (build_listM sample_program)))
     (fst (snd (generate_cfg (build_listM sample_program)))) \<noteq> Some 3"
  by (simp add: sample_listM sample_cfg on_complexity_def)

section \<open>A while loop inside a while loop\<close>

definition nested_while :: string where
  "nested_while = ''while a:'' @ [CHR 0x0A] @ ''    while b:'' @ [CHR 0x0A] @
                  ''        b = b - 1'' @ [CHR 0x0A]"

lemma nested_while_listM:
  "build_listM nested_while = [''start'', ''while1'', ''whilesp2'', ''end'']"
  by code_simp

lemma nested_while_cfg:
  "generate_cfg [''start'', ''while1'', ''whilesp2'', ''end''] =
     ([''start'', ''while1'', ''whilesp2'', ''end''],
      [(''start'', ''while1''), (''while1'', ''end''), (''while1'', ''whilesp2''),
       (''whilesp2'', ''f''), (''whilesp2'', ''whilesp2'')],
      [], [])"
  by code_simp

text \<open>
  Claim C5 at a failing input.  For a while loop nested in a while loop the labeler
  returns start, while1, whilesp2, end, and the edge generator returns the edge from
  whilesp2 to the string f, which is not in the node list: the edges are not a subset of
  the pairs of nodes.
\<close>

theorem C5_edge_to_marker_f:
  "build_listM nested_while = [''start'', ''while1'', ''whilesp2'', ''end''] \<and>
   (''whilesp2'', ''f'') \<in> set (fst (snd (generate_cfg (build_listM nested_while)))) \<and>
   ''f'' \<notin> set (fst (generate_cfg (build_listM nested_while)))"
  by (simp add: nested_while_listM nested_while_cfg)

section \<open>The path enumerator\<close>

lemma back_edge_scan_find:
  "back_edge_scan node path is =
     (case find (\<lambda>i. i = node \<or> i = ''end'') is of
        None \<Rightarrow> []
      | Some i \<Rightarrow> if i = node then [] else [path @ [node, ''end'']])"
  by (induction "is") auto

lemma back_edge_scan_mem:
  "p \<in> set (back_edge_scan node path is) \<Longrightarrow> p = path @ [node, ''end'']"
  by (induction "is") (auto split: if_splits)

text \<open>
  Claim C3, as the code has it.  When the source differs from the destination, the
  enumerator extends the prefix with the source and goes through the successors of the
  source in order.  For a successor \<open>node\<close> already on the extended prefix it looks for
  the first successor of \<open>node\<close> that is \<open>node\<close> itself or the literal label end: if
  there is none, or it is \<open>node\<close>, no path is added; if it is end, the one path
  \<open>extended prefix + [node, end]\<close> is added.  The test and the appended label are the
  literal end, whatever the destination is.  Every other successor is enumerated
  recursively.
\<close>

theorem C3_back_edge_rule:
  assumes "source \<noteq> dest"
  shows "find_all_paths d source dest pre =
     concat (map (\<lambda>node.
         if node \<in> set (pre @ [source])
         then (case find (\<lambda>i. i = node \<or> i = ''end'') (adj d node) of
                 None \<Rightarrow> []
               | Some i \<Rightarrow> if i = node then [] else [(pre @ [source]) @ [node, ''end'']])
         else find_all_paths d node dest (pre @ [source]))
       (adj d source))"
  by (subst find_all_paths.simps) (simp only: back_edge_scan_find assms if_False)

definition back_edge_graph :: "(string \<times> string list) list" where
  "back_edge_graph = [(''b'', [''a'', ''c'']), (''a'', [''x'', ''end'', ''a''])]"

text \<open>
  The rule at work: from b with the prefix a and the destination z, the successor a
  is on the path, and its successors x, end, a give the path a, b, a, end.
\<close>

theorem C3_back_edge_rule_witness:
  "''b'' \<noteq> ''z'' \<and>
   find_all_paths back_edge_graph ''b'' ''z'' [''a''] = [[''a'', ''b'', ''a'', ''end'']]"
proof -
  have h: "''b'' \<noteq> ''z''" by simp
  have "find_all_paths back_edge_graph ''b'' ''z'' [''a''] =
     concat (map (\<lambda>node.
         if node \<in> set ([''a''] @ [''b''])
         then (case find (\<lambda>i. i = node \<or> i = ''end'') (adj back_edge_graph node) of
                 None \<Rightarrow> []
               | Some i \<Rightarrow> if i = node then [] else [([''a''] @ [''b'']) @ [node, ''end'']])
         else find_all_paths back_edge_graph node ''z'' ([''a''] @ [''b'']))
       (adj back_edge_graph ''b''))"
    using h by (rule C3_back_edge_rule)
  also have "\<dots> = [[''a'', ''b'', ''a'', ''end'']]"
    by code_simp
  finally show ?thesis using h by simp
qed

text \<open>
  With the destination z the claim fails.  Where a has the successors b and z and b
  has the successor a, no path a, b, a, z is returned; and where a has the successors
  b and end, the path a, b, a, end is returned although the destination is z.
\<close>

theorem C3_counterexample:
  "find_all_paths [(''a'', [''b'', ''z'']), (''b'', [''a''])] ''a'' ''z'' [] =
     [[''a'', ''z'']] \<and>
   [''a'', ''b'', ''a'', ''z''] \<notin>
     set (find_all_paths [(''a'', [''b'', ''z'']), (''b'', [''a''])] ''a'' ''z'' []) \<and>
   find_all_paths [(''a'', [''b'', ''end'']), (''b'', [''a''])] ''a'' ''z'' [] =
     [[''a'', ''b'', ''a'', ''end'']]"
  by code_simp

text \<open>Every returned path extends the prefix by the source and ends at the destination
  or at the label end.\<close>

lemma paths_prefix:
  "p \<in> set (find_all_paths d s t path0) \<Longrightarrow>
   (\<exists>r. p = path0 @ s # r) \<and> (last p = t \<or> last p = ''end'')"
proof (induction d s t path0 arbitrary: p rule: find_all_paths.induct)
  case (1 d source dest path0)
  show ?case
  proof (cases "source = dest")
    case True
    with "1.prems" show ?thesis by (simp add: find_all_paths.simps)
  next
    case False
    with "1.prems" obtain node where node: "node \<in> set (adj d source)"
      and p: "p \<in> set (if node \<in> set (path0 @ [source])
             then back_edge_scan node (path0 @ [source]) (adj d node)
             else find_all_paths d node dest (path0 @ [source]))"
      by (subst (asm) find_all_paths.simps) auto
    show ?thesis
    proof (cases "node \<in> set (path0 @ [source])")
      case True
      with p have "p = (path0 @ [source]) @ [node, ''end'']"
        by (auto dest: back_edge_scan_mem)
      then show ?thesis by simp
    next
      case n: False
      with p have "p \<in> set (find_all_paths d node dest (path0 @ [source]))" by simp
      from "1.IH"[OF False node n this] show ?thesis by auto
    qed
  qed
qed

text \<open>From a prefix without repetition, a returned path has no repetition, or it is
  such a path followed by one of its nodes and the label end.\<close>

lemma paths_shape:
  "p \<in> set (find_all_paths d s t path0) \<Longrightarrow> distinct (path0 @ [s]) \<Longrightarrow> t \<notin> set path0 \<Longrightarrow>
   distinct p \<or>
   (\<exists>q node. p = q @ [node, ''end''] \<and> distinct q \<and> node \<in> set q \<and> t \<notin> set q)"
proof (induction d s t path0 arbitrary: p rule: find_all_paths.induct)
  case (1 d source dest path0)
  show ?case
  proof (cases "source = dest")
    case True
    with "1.prems" show ?thesis by (simp add: find_all_paths.simps)
  next
    case False
    with "1.prems"(1) obtain node where node: "node \<in> set (adj d source)"
      and p: "p \<in> set (if node \<in> set (path0 @ [source])
             then back_edge_scan node (path0 @ [source]) (adj d node)
             else find_all_paths d node dest (path0 @ [source]))"
      by (subst (asm) find_all_paths.simps) auto
    show ?thesis
    proof (cases "node \<in> set (path0 @ [source])")
      case True
      with p have "p = (path0 @ [source]) @ [node, ''end'']"
        by (auto dest: back_edge_scan_mem)
      moreover have "dest \<notin> set (path0 @ [source])"
        using False "1.prems"(3) by auto
      ultimately show ?thesis using True "1.prems"(2) by blast
    next
      case n: False
      with p have m: "p \<in> set (find_all_paths d node dest (path0 @ [source]))" by simp
      have d: "distinct ((path0 @ [source]) @ [node])"
        using n "1.prems"(2) by auto
      have t: "dest \<notin> set (path0 @ [source])"
        using False "1.prems"(3) by auto
      from "1.IH"[OF False node n m d t] show ?thesis .
    qed
  qed
qed

lemma count_list_distinct: "distinct q \<Longrightarrow> x \<in> set q \<Longrightarrow> count_list q x = 1"
  by (induction q) auto

text \<open>
  Claim C7.  For every adjacency dictionary, every path returned for the source start
  and the destination end begins with start and ends with end.  Such a path either
  repeats no label, or it is a synthetic path: a path \<open>q\<close> without repetition and
  without end, followed by one node of \<open>q\<close> and by end.  So the back-edge node is
  appended once, and occurs exactly twice in the synthetic path.
\<close>

theorem C7_paths_start_end:
  assumes "p \<in> set (find_all_paths d ''start'' ''end'' [])"
  shows "hd p = ''start'' \<and> last p = ''end'' \<and>
         (distinct p \<or>
          (\<exists>q node. p = q @ [node, ''end''] \<and> distinct q \<and> node \<in> set q \<and>
                     ''end'' \<notin> set q \<and> count_list p node = 2))"
proof -
  from paths_prefix[OF assms] have a: "hd p = ''start''" "last p = ''end''"
    by auto
  from paths_shape[OF assms] have
    "distinct p \<or>
     (\<exists>q node. p = q @ [node, ''end''] \<and> distinct q \<and> node \<in> set q \<and> ''end'' \<notin> set q)"
    by simp
  then show ?thesis
  proof
    assume "distinct p"
    with a show ?thesis by simp
  next
    assume "\<exists>q node. p = q @ [node, ''end''] \<and> distinct q \<and> node \<in> set q \<and>
                      ''end'' \<notin> set q"
    then obtain q node where q: "p = q @ [node, ''end'']" "distinct q" "node \<in> set q"
      "''end'' \<notin> set q"
      by blast
    then have "node \<noteq> ''end''" by auto
    moreover have "count_list q node = 1"
      using q(2,3) by (rule count_list_distinct)
    ultimately have "count_list p node = 2"
      using q(1) by simp
    with q a show ?thesis by blast
  qed
qed

definition loop_graph :: "(string \<times> string list) list" where
  "loop_graph = [(''start'', [''a'']), (''a'', [''b'', ''end'']), (''b'', [''a''])]"

theorem C7_paths_start_end_witness:
  "[''start'', ''a'', ''b'', ''a'', ''end''] \<in>
     set (find_all_paths loop_graph ''start'' ''end'' []) \<and>
   hd [''start'', ''a'', ''b'', ''a'', ''end''] = ''start'' \<and>
   last [''start'', ''a'', ''b'', ''a'', ''end''] = ''end'' \<and>
   count_list [''start'', ''a'', ''b'', ''a'', ''end''] ''a'' = 2"
proof -
  have h: "[''start'', ''a'', ''b'', ''a'', ''end''] \<in>
             set (find_all_paths loop_graph ''start'' ''end'' [])"
    by code_simp
  from C7_paths_start_end[OF h] show ?thesis using h by simp
qed

section \<open>Lines without a keyword\<close>

lemma pop_ended_Nil [simp]: "pop_ended lvl [] = []"
  by (simp add: pop_ended.simps)

lemma first_keyword_Nil: "first_keyword KEYWORDS [] = None"
  by (simp add: KEYWORDS_def)

lemma extract_keyword_blank: "strip line = [] \<Longrightarrow> extract_keyword line = None"
  by (simp add: extract_keyword_def first_keyword_Nil)

lemma label_line_nokw:
  "extract_keyword line = None \<Longrightarrow>
   count (label_line s line) = count s \<and> listM (label_line s line) = listM s \<and>
   (stack s = [] \<longrightarrow> stack (label_line s line) = [])"
  by (simp add: label_line_def Let_def)

lemma label_lines_nokw:
  "\<forall>l\<in>set ls. extract_keyword l = None \<Longrightarrow>
   count (foldl label_line s ls) = count s \<and> listM (foldl label_line s ls) = listM s \<and>
   (stack s = [] \<longrightarrow> stack (foldl label_line s ls) = [])"
proof (induction ls arbitrary: s)
  case Nil
  then show ?case by simp
next
  case (Cons l ls)
  from Cons.prems have l: "extract_keyword l = None"
    and ls: "\<forall>l\<in>set ls. extract_keyword l = None"
    by auto
  from Cons.IH[OF ls, of "label_line s l"] label_line_nokw[OF l, of s]
  show ?case by simp
qed

lemma nokw_listM:
  assumes "\<forall>l\<in>set (splitlines source). extract_keyword l = None"
  shows "build_listM source = [''start'', ''end'']"
  using label_lines_nokw[OF assms, of init_lstate]
  by (simp add: build_listM_def label_lines_def init_lstate_def)

lemma start_end_cfg:
  "generate_cfg [''start'', ''end''] = ([''start'', ''end''], [(''start'', ''end'')], [], [])"
  by code_simp

lemma start_end_paths:
  "find_all_paths (build_adj_from_edges [(''start'', ''end'')]) ''start'' ''end'' [] =
     [[''start'', ''end'']]"
  by code_simp

text \<open>
  Claim C8.  For every source text none of whose lines starts with a keyword (blank
  lines included), the labeler returns start, end; the edge generator returns these two
  nodes and the single edge from start to end, with an empty list3 and no counts; and
  the path enumeration over the adjacency of these edges returns the one path start,
  end.
\<close>

theorem C8_no_keyword_pipeline:
  assumes "\<forall>l\<in>set (splitlines source). extract_keyword l = None"
  shows "build_listM source = [''start'', ''end''] \<and>
         generate_cfg (build_listM source) =
           ([''start'', ''end''], [(''start'', ''end'')], [], []) \<and>
         find_all_paths (build_adj_from_edges (fst (snd (generate_cfg (build_listM source)))))
           ''start'' ''end'' [] = [[''start'', ''end'']]"
  by (simp add: nokw_listM[OF assms] start_end_cfg start_end_paths)

definition plain_program :: string where
  "plain_program = ''x = 1'' @ [CHR 0x0A] @ [CHR 0x0A] @ ''print(x)'' @ [CHR 0x0A]"

theorem C8_no_keyword_pipeline_witness:
  "splitlines plain_program = [''x = 1'', [], ''print(x)''] \<and>
   extract_keyword ''x = 1'' = None \<and> extract_keyword [] = None \<and>
   extract_keyword ''print(x)'' = None \<and>
   build_listM plain_program = [''start'', ''end''] \<and>
   generate_cfg (build_listM plain_program) =
     ([''start'', ''end''], [(''start'', ''end'')], [], []) \<and>
   find_all_paths (build_adj_from_edges (fst (snd (generate_cfg (build_listM plain_program)))))
     ''start'' ''end'' [] = [[''start'', ''end'']]"
proof -
  have s: "splitlines plain_program = [''x = 1'', [], ''print(x)'']"
    by code_simp
  have k: "extract_keyword ''x = 1'' = None" "extract_keyword [] = None"
    "extract_keyword ''print(x)'' = None"
    by code_simp+
  have h: "\<forall>l\<in>set (splitlines plain_program). extract_keyword l = None"
    using s k by simp
  from C8_no_keyword_pipeline[OF h] s k show ?thesis by blast
qed

section \<open>Scenario 4: a single while loop\<close>

lemma str_nat_1: "str_nat (Suc 0) = ''1''"
  by code_simp

lemma label_line_while_first:
  assumes "extract_keyword hdr = Some (''while'', rest)" "stack s = []"
  shows "listM (label_line s hdr) = listM s @ [''while'' @ str_nat (count s + 1)]"
    and "count (label_line s hdr) = count s + 1"
proof -
  have "strip hdr \<noteq> []"
    using assms(1) extract_keyword_blank[of hdr] by auto
  then show "listM (label_line s hdr) = listM s @ [''while'' @ str_nat (count s + 1)]"
    and "count (label_line s hdr) = count s + 1"
    using assms by (simp_all add: label_line_def Let_def)
qed

lemma while_listM:
  assumes "splitlines source = pre @ hdr # body"
    and "\<forall>l\<in>set pre. extract_keyword l = None"
    and "extract_keyword hdr = Some (''while'', rest)"
    and "\<forall>l\<in>set body. extract_keyword l = None"
  shows "build_listM source = [''start'', ''while1'', ''end'']"
proof -
  let ?s1 = "foldl label_line init_lstate pre"
  have a: "count ?s1 = 0" "listM ?s1 = []" "stack ?s1 = []"
    using label_lines_nokw[OF assms(2), of init_lstate] by (simp_all add: init_lstate_def)
  let ?s2 = "label_line ?s1 hdr"
  have b: "listM ?s2 = [''while1'']"
    using label_line_while_first(1)[OF assms(3) a(3)] a by (simp add: str_nat_1)
  have "listM (foldl label_line ?s2 body) = [''while1'']"
    using label_lines_nokw[OF assms(4), of ?s2] b by simp
  then show ?thesis
    by (simp add: build_listM_def label_lines_def assms(1))
qed

lemma while_cfg:
  "generate_cfg [''start'', ''while1'', ''end''] =
    ([''start'', ''while1'', ''end''],
     [(''start'', ''while1''), (''while1'', ''while1''), (''while1'', ''end'')], [], [])"
  by code_simp

lemma while_paths:
  "find_all_paths
     (build_adj_from_edges
        [(''start'', ''while1''), (''while1'', ''while1''), (''while1'', ''end'')])
     ''start'' ''end'' [] = [[''start'', ''while1'', ''end'']]"
  by code_simp

text \<open>
  Claim C2, as the code has it.  Take a source whose lines are: lines without a keyword,
  then one line that starts with while, then lines without a keyword (the body).  The
  labeler returns start, while1, end.  The edge generator returns the edge from start to
  while1, the self-loop at while1 and the loop-exit edge from while1 to end, in this
  order.  The path enumeration from start to end returns exactly one path, start,
  while1, end: at the self-loop the back-edge rule finds while1 first among the
  successors of while1 and stops, so it adds no synthetic path.
\<close>

theorem C2_single_while:
  assumes "splitlines source = pre @ hdr # body"
    and "\<forall>l\<in>set pre. extract_keyword l = None"
    and "extract_keyword hdr = Some (''while'', rest)"
    and "\<forall>l\<in>set body. extract_keyword l = None"
  shows "build_listM source = [''start'', ''while1'', ''end''] \<and>
         fst (snd (generate_cfg (build_listM source))) =
           [(''start'', ''while1''), (''while1'', ''while1''), (''while1'', ''end'')] \<and>
         find_all_paths (build_adj_from_edges (fst (snd (generate_cfg (build_listM source)))))
           ''start'' ''end'' [] = [[''start'', ''while1'', ''end'']]"
  by (simp add: while_listM[OF assms] while_cfg while_paths)

definition while_program :: string where
  "while_program = ''while x > 0:'' @ [CHR 0x0A] @ ''    x = x - 1'' @ [CHR 0x0A]"

theorem C2_single_while_witness:
  "splitlines while_program = [] @ ''while x > 0:'' # [''    x = x - 1''] \<and>
   extract_keyword ''while x > 0:'' = Some (''while'', ''x > 0:'') \<and>
   extract_keyword ''    x = x - 1'' = None \<and>
   build_listM while_program = [''start'', ''while1'', ''end''] \<and>
   fst (snd (generate_cfg (build_listM while_program))) =
     [(''start'', ''while1''), (''while1'', ''while1''), (''while1'', ''end'')] \<and>
   find_all_paths (build_adj_from_edges (fst (snd (generate_cfg (build_listM while_program)))))
     ''start'' ''end'' [] = [[''start'', ''while1'', ''end'']]"
proof -
  have s: "splitlines while_program = [] @ ''while x > 0:'' # [''    x = x - 1'']"
    by code_simp
  have k: "extract_keyword ''while x > 0:'' = Some (''while'', ''x > 0:'')"
    by code_simp
  have b: "extract_keyword ''    x = x - 1'' = None"
    by code_simp
  have p: "\<forall>l\<in>set []. extract_keyword l = None"
    by simp
  have q: "\<forall>l\<in>set [''    x = x - 1'']. extract_keyword l = None"
    using b by simp
  from C2_single_while[OF s p k q] s k b show ?thesis by blast
qed

text \<open>
  The claim as the specification states it fails on this program: the only path
  returned is start, while1, end, and the synthetic path start, while1, while1, end is
  not returned.
\<close>

theorem C2_counterexample:
  "find_all_paths (build_adj_from_edges (fst (snd (generate_cfg (build_listM while_program)))))
     ''start'' ''end'' [] = [[''start'', ''while1'', ''end'']] \<and>
   [''start'', ''while1'', ''while1'', ''end''] \<notin>
     set (find_all_paths
            (build_adj_from_edges (fst (snd (generate_cfg (build_listM while_program)))))
            ''start'' ''end'' [])"
  by code_simp

section \<open>The edges of the generated graph\<close>

text \<open>A property kept by every iteration holds after the loop.\<close>

lemma cfg_loop_invariant:
  "(\<And>i s. 1 \<le> i \<Longrightarrow> i + 1 < length ls \<Longrightarrow> Q s \<Longrightarrow> Q (cfg_step ls i s)) \<Longrightarrow>
   1 \<le> i \<Longrightarrow> Q s \<Longrightarrow> Q (cfg_loop ls i s)"
proof (induction ls i s rule: cfg_loop.induct)
  case (1 ls i s)
  show ?case
  proof (cases "i + 1 < length ls")
    case True
    have "Q (cfg_step ls i s)"
      using "1.prems"(2) True "1.prems"(3) by (rule "1.prems"(1))
    with "1.IH"[OF True "1.prems"(1)] True show ?thesis
      by (subst cfg_loop.simps) simp
  next
    case False
    with "1.prems" show ?thesis by (subst cfg_loop.simps) simp
  qed
qed

lemma first_plain_range: "first_plain ls i = Some j \<Longrightarrow> i < j \<and> j < length ls"
  by (auto simp: first_plain_def find_Some_iff)

lemma loop_header_edges_mem:
  assumes "e \<in> set (loop_header_edges ls i cur nxt)"
  shows "fst e = cur \<and> (snd e = cur \<or> snd e = ls ! (i + 1) \<or> (\<exists>j. i < j \<and> j < length ls \<and> snd e = ls ! j))"
proof (cases "first_plain ls i")
  case None
  with assms show ?thesis by (auto simp: loop_header_edges_def split: if_splits)
next
  case (Some j)
  from first_plain_range[OF Some] Some assms show ?thesis
    by (auto simp: loop_header_edges_def split: if_splits)
qed

lemma edge_to_nxt_mem:
  "e \<in> set (edge_to_nxt cur (Some x)) \<Longrightarrow> e = (cur, x)"
  by (auto simp: edge_to_nxt_def split: if_splits)

lemma find_drop_mem:
  assumes "find P (drop k ls) = Some b"
  shows "P b \<and> (\<exists>j. k \<le> j \<and> j < length ls \<and> b = ls ! j)"
proof -
  from assms obtain m where m: "m < length (drop k ls)" "P (drop k ls ! m)" "b = drop k ls ! m"
    by (auto simp: find_Some_iff)
  then have "k + m < length ls" "b = ls ! (k + m)" by auto
  with m show ?thesis by (metis le_add1)
qed

text \<open>The edges one iteration can add.\<close>

lemma cfg_step_edges:
  assumes i: "i + 1 < length ls" and e: "e \<in> set (edges (cfg_step ls i s))"
  shows "e \<in> set (edges s) \<or>
         (fst e = ls ! i \<and>
            (snd e = ls ! i \<or> snd e = ''end'' \<or> snd e = ''f'' \<or>
             (\<exists>j. i < j \<and> j < length ls \<and> snd e = ls ! j) \<or>
             (1 \<le> i \<and> sublist ''for'' (ls ! (i - 1)) \<and> snd e = ls ! (i - 1)))) \<or>
         (e = (ls ! (i + 1), ''end'') \<and> is_plain_exp (ls ! (i + 1)))"
proof -
  let ?cur = "ls ! i" and ?x = "ls ! (i + 1)"
  have nxt: "(if i + 1 < length ls then Some ?x else None) = Some ?x"
    using i by simp
  have nx: "\<exists>j. i < j \<and> j < length ls \<and> ?x = ls ! j"
    using i by auto
  note defs = cfg_step_def Let_def
  show ?thesis
  proof (cases "is_plain_exp ?cur")
    case True
    then have "edges (cfg_step ls i s) = edges s" using i by (auto simp add: defs)
    with e show ?thesis by simp
  next
    case c1: False
    show ?thesis
    proof (cases "(is_plain_if ?cur \<or> is_plain_elif ?cur) \<and> nxt_and (Some ?x) is_plain_exp")
      case True
      then have px: "is_plain_exp ?x" by (simp add: nxt_and_def)
      show ?thesis
      proof (cases "find is_branch_kw (drop (i + 2) ls)")
        case None
        with c1 True i have "edges (cfg_step ls i s) = edges s @ [(?cur, ?x), (?x, ''end'')]"
          by (auto simp add: defs)
        with e nx px show ?thesis by auto
      next
        case (Some b)
        with c1 True i have "edges (cfg_step ls i s) = edges s @ [(?cur, ?x), (?cur, b), (?x, ''end'')]"
          by (auto simp add: defs)
        moreover from find_drop_mem[OF Some] obtain j where "i + 2 \<le> j" "j < length ls" "b = ls ! j"
          by blast
        then have "\<exists>j. i < j \<and> j < length ls \<and> b = ls ! j"
          by (intro exI[of _ j]) simp
        ultimately show ?thesis using e nx px by auto
      qed
    next
      case c2: False
      show ?thesis
      proof (cases "is_plain_else ?cur")
        case True
        with c1 c2 i have "edges (cfg_step ls i s) = edges s @ [(?cur, ''end'')]"
          by (auto simp add: defs)
        with e show ?thesis by auto
      next
        case c3: False
        show ?thesis
        proof (cases "prefix ''forsp'' ?cur")
          case True
          with c1 c2 c3 i have "edges (cfg_step ls i s) = edges s @ [(?cur, ?cur)] @
             (if 1 \<le> i \<and> sublist ''for'' (ls ! (i - 1)) then [(?cur, ls ! (i - 1))]
              else if nxt_and (Some ?x) (sublist ''sp'') then [(?cur, ?x)]
              else if in_range (st s) (en s) i then [(?cur, ''f'')]
              else edge_to_nxt ?cur (Some ?x))"
            by (auto simp add: defs)
          with e nx show ?thesis
            by (auto split: if_splits dest!: edge_to_nxt_mem)
        next
          case c4: False
          show ?thesis
          proof (cases "prefix ''for'' ?cur \<and> \<not> sublist ''sp'' ?cur")
            case True
            with c1 c2 c3 c4 i have "edges (cfg_step ls i s) = edges s @ loop_header_edges ls i ?cur (Some ?x)"
              by (auto simp add: defs)
            with e nx show ?thesis
              by (auto dest!: loop_header_edges_mem)
          next
            case c5: False
            show ?thesis
            proof (cases "prefix ''while'' ?cur \<and> \<not> sublist ''sp'' ?cur")
              case True
              with c1 c2 c3 c4 c5 i have "edges (cfg_step ls i s) = edges s @ loop_header_edges ls i ?cur (Some ?x)"
                by (auto simp add: defs)
              with e nx show ?thesis
                by (auto dest!: loop_header_edges_mem)
            next
              case c6: False
              show ?thesis
              proof (cases "prefix ''whilesp'' ?cur")
                case True
                with c1 c2 c3 c4 c5 c6 i have "edges (cfg_step ls i s) = edges s @
                   (if in_range (st s) (en s) i then [(?cur, ''f'')] else edge_to_nxt ?cur (Some ?x)) @ [(?cur, ?cur)]"
                  by (auto simp add: defs)
                with e nx show ?thesis
                  by (auto split: if_splits dest!: edge_to_nxt_mem)
              next
                case c7: False
                with c1 c2 c3 c4 c5 c6 i have "edges (cfg_step ls i s) = edges s @ edge_to_nxt ?cur (Some ?x)"
                  by (auto simp add: defs)
                with e nx show ?thesis
                  by (auto dest!: edge_to_nxt_mem)
              qed
            qed
          qed
        qed
      qed
    qed
  qed
qed


lemma uniq_fold_set:
  "set (foldl (\<lambda>us e. if e \<notin> set us then us @ [e] else us) us es) = set us \<union> set es"
  by (induction es arbitrary: us) auto

lemma uniq_fold_distinct:
  "distinct us \<Longrightarrow> distinct (foldl (\<lambda>us e. if e \<notin> set us then us @ [e] else us) us es)"
  by (induction es arbitrary: us) auto

lemma uniq_edges_set: "set (uniq_edges es) = set es"
  by (simp add: uniq_edges_def uniq_fold_set)

lemma uniq_edges_distinct: "distinct (uniq_edges es)"
  by (simp add: uniq_edges_def uniq_fold_distinct)

lemma generate_cfg_edges:
  "set (fst (snd (generate_cfg ls))) = set (edges (cfg_loop ls 1 (init_cfg_state ls)))"
  by (simp add: generate_cfg_def Let_def uniq_edges_set)

lemma plain_exp_not_end: "\<not> is_plain_exp ''end''"
  by code_simp

lemma for_not_in_start: "\<not> sublist ''for'' ''start''"
  by code_simp

lemma nth_in_tl: "1 \<le> k \<Longrightarrow> k < length ls \<Longrightarrow> ls ! k \<in> set (tl ls)"
  by (cases ls) auto

lemma nth_in_butlast: "k + 1 < length ls \<Longrightarrow> ls ! k \<in> set (butlast ls)"
  by (metis add_lessD1 in_set_conv_nth length_butlast less_diff_conv nth_butlast)

text \<open>
  Claim C10.  For every label sequence in which start occurs at most as the first
  element and end occurs at most as the last element, no edge returned by the edge
  generator has the source end, and none has the destination start.
\<close>

theorem C10_start_source_end_sink:
  assumes hs: "''start'' \<notin> set (tl ls)"
    and he: "''end'' \<notin> set (butlast ls)"
    and e: "(a, b) \<in> set (fst (snd (generate_cfg ls)))"
  shows "a \<noteq> ''end'' \<and> b \<noteq> ''start''"
proof -
  let ?Q = "\<lambda>s. \<forall>e\<in>set (edges s). fst e \<noteq> ''end'' \<and> snd e \<noteq> ''start''"
  have ns: "ls ! k \<noteq> ''start''" if "1 \<le> k" "k < length ls" for k
    using nth_in_tl[OF that] hs by auto
  have ne: "ls ! k \<noteq> ''end''" if "k + 1 < length ls" for k
    using nth_in_butlast[OF that] he by auto
  have init: "?Q (init_cfg_state ls)"
    using ns[of 1] ne[of 0] by (auto simp: init_cfg_state_def)
  have step: "?Q (cfg_step ls i s)" if i: "1 \<le> i" "i + 1 < length ls" and q: "?Q s" for i s
  proof
    fix e assume "e \<in> set (edges (cfg_step ls i s))"
    from cfg_step_edges[OF i(2) this] consider
      (old) "e \<in> set (edges s)"
      | (cur) "fst e = ls ! i" "snd e = ls ! i \<or> snd e = ''end'' \<or> snd e = ''f'' \<or>
             (\<exists>j. i < j \<and> j < length ls \<and> snd e = ls ! j) \<or>
             (1 \<le> i \<and> sublist ''for'' (ls ! (i - 1)) \<and> snd e = ls ! (i - 1))"
      | (exp) "e = (ls ! (i + 1), ''end'')" "is_plain_exp (ls ! (i + 1))"
      by blast
    then show "fst e \<noteq> ''end'' \<and> snd e \<noteq> ''start''"
    proof cases
      case old
      with q show ?thesis by blast
    next
      case cur
      have a: "fst e \<noteq> ''end''" using cur(1) ne[OF i(2)] by simp
      have "snd e \<noteq> ''start''"
        using cur(2)
      proof (elim disjE exE conjE)
        assume "snd e = ls ! i" then show ?thesis using ns[OF i(1)] i(2) by simp
      next
        assume "snd e = ''end''" then show ?thesis by simp
      next
        assume "snd e = ''f''" then show ?thesis by simp
      next
        fix j assume "i < j" "j < length ls" "snd e = ls ! j"
        then show ?thesis using ns[of j] i(1) by simp
      next
        assume "sublist ''for'' (ls ! (i - 1))" "snd e = ls ! (i - 1)"
        then show ?thesis using for_not_in_start by auto
      qed
      with a show ?thesis by simp
    next
      case exp
      then show ?thesis using plain_exp_not_end by auto
    qed
  qed
  have "?Q (cfg_loop ls 1 (init_cfg_state ls))"
    by (rule cfg_loop_invariant[where Q = ?Q, OF step _ init]) simp_all
  with e show ?thesis
    by (auto simp: generate_cfg_edges)
qed

definition for_labels :: "string list" where
  "for_labels = [''start'', ''for1'', ''forsp2'', ''end'']"

theorem C10_start_source_end_sink_witness:
  "''start'' \<notin> set (tl for_labels) \<and> ''end'' \<notin> set (butlast for_labels) \<and>
   (''forsp2'', ''for1'') \<in> set (fst (snd (generate_cfg for_labels))) \<and>
   ''forsp2'' \<noteq> ''end'' \<and> ''for1'' \<noteq> ''start''"
proof -
  have hs: "''start'' \<notin> set (tl for_labels)" by code_simp
  have he: "''end'' \<notin> set (butlast for_labels)" by code_simp
  have e: "(''forsp2'', ''for1'') \<in> set (fst (snd (generate_cfg for_labels)))" by code_simp
  from C10_start_source_end_sink[OF hs he e] hs he e show ?thesis by blast
qed

text \<open>
  For every label sequence the returned edges are pairwise different, every source is a
  label of the sequence, and every destination is a label of the sequence, the label
  end, or the string f.
\<close>

lemma generate_cfg_edges_distinct: "distinct (fst (snd (generate_cfg ls)))"
  by (simp add: generate_cfg_def Let_def uniq_edges_distinct)

lemma generate_cfg_edge_members:
  assumes e: "(a, b) \<in> set (fst (snd (generate_cfg ls)))"
  shows "a \<in> set ls \<and> (b \<in> set ls \<or> b = ''end'' \<or> b = ''f'')"
proof -
  let ?Q = "\<lambda>s. \<forall>e\<in>set (edges s). fst e \<in> set ls \<and> (snd e \<in> set ls \<or> snd e = ''end'' \<or> snd e = ''f'')"
  have "ls ! 0 \<in> set ls \<and> ls ! 1 \<in> set ls" if "2 \<le> length ls"
  proof -
    from that have "0 < length ls" "1 < length ls" by linarith+
    then show ?thesis by (blast intro: nth_mem)
  qed
  then have init: "?Q (init_cfg_state ls)"
    by (auto simp: init_cfg_state_def)
  have step: "?Q (cfg_step ls i s)" if i: "1 \<le> i" "i + 1 < length ls" and q: "?Q s" for i s
  proof
    fix e assume "e \<in> set (edges (cfg_step ls i s))"
    from cfg_step_edges[OF i(2) this] q i
    show "fst e \<in> set ls \<and> (snd e \<in> set ls \<or> snd e = ''end'' \<or> snd e = ''f'')"
      by (elim disjE conjE exE) auto
  qed
  have "?Q (cfg_loop ls 1 (init_cfg_state ls))"
    by (rule cfg_loop_invariant[where Q = ?Q, OF step _ init]) simp_all
  with e show ?thesis
    by (auto simp: generate_cfg_edges)
qed

section \<open>The numbering of the labels\<close>

text \<open>
  Reading a label back: the number is the value of the decimal digits at its end, the
  stem is what stands before them, and an expression label is one whose stem ends with
  exp.
\<close>

definition label_number :: "string \<Rightarrow> nat" where
  "label_number l =
     foldl (\<lambda>n c. 10 * n + (of_char c - 48)) 0 (rev (takeWhile is_digit (rev l)))"

definition label_stem :: "string \<Rightarrow> string" where
  "label_stem l = rev (dropWhile is_digit (rev l))"

definition is_exp_label :: "string \<Rightarrow> bool" where
  "is_exp_label l = suffix ''exp'' (label_stem l)"

lemma digit_char_code: "d < 10 \<Longrightarrow> (of_char (digit_char d) :: nat) = 48 + d"
  by (simp add: digit_char_def)

lemma is_digit_digit_char: "d < 10 \<Longrightarrow> is_digit (digit_char d)"
  by (simp add: is_digit_def digit_char_code)

lemma str_nat_digits: "list_all is_digit (str_nat n)"
proof (induction n rule: str_nat.induct)
  case (1 n)
  show ?case
  proof (cases "n < 10")
    case True
    then show ?thesis by (subst str_nat.simps) (simp add: is_digit_digit_char)
  next
    case False
    with 1 show ?thesis by (subst str_nat.simps) (simp add: is_digit_digit_char)
  qed
qed

lemma str_nat_value: "foldl (\<lambda>n c. 10 * n + (of_char c - 48)) 0 (str_nat n) = n"
proof (induction n rule: str_nat.induct)
  case (1 n)
  show ?case
  proof (cases "n < 10")
    case True
    then show ?thesis by (subst str_nat.simps) (simp add: digit_char_code)
  next
    case False
    with 1 show ?thesis by (subst str_nat.simps) (simp add: digit_char_code)
  qed
qed

lemma stem_split:
  assumes "stem \<noteq> []" "\<not> is_digit (last stem)"
  shows "takeWhile is_digit (rev (stem @ str_nat n)) = rev (str_nat n)"
    and "dropWhile is_digit (rev (stem @ str_nat n)) = rev stem"
proof -
  have d: "\<forall>c\<in>set (rev (str_nat n)). is_digit c"
    using str_nat_digits[of n] by (simp add: list_all_iff)
  from assms(1) obtain b c where s: "stem = b @ [c]"
    by (cases stem rule: rev_cases) auto
  with assms(2) have c: "\<not> is_digit c"
    by simp
  have r: "rev (stem @ str_nat n) = rev (str_nat n) @ c # rev b"
    by (simp add: s)
  have t: "takeWhile is_digit (rev (str_nat n) @ c # rev b) =
           rev (str_nat n) @ takeWhile is_digit (c # rev b)"
    by (rule takeWhile_append2) (use d in blast)
  have u: "dropWhile is_digit (rev (str_nat n) @ c # rev b) = dropWhile is_digit (c # rev b)"
    by (rule dropWhile_append2) (use d in blast)
  show "takeWhile is_digit (rev (stem @ str_nat n)) = rev (str_nat n)"
    unfolding r t using c by simp
  show "dropWhile is_digit (rev (stem @ str_nat n)) = rev stem"
    unfolding r u using c by (simp add: s)
qed

lemma label_number_stem:
  assumes "stem \<noteq> []" "\<not> is_digit (last stem)"
  shows "label_number (stem @ str_nat n) = n" and "label_stem (stem @ str_nat n) = stem"
  unfolding label_number_def label_stem_def stem_split[OF assms]
  by (simp_all add: str_nat_value)


text \<open>The stems of the labels that are not expression labels.\<close>

definition main_stems :: "string list" where
  "main_stems = [''if'', ''ifsp'', ''elif'', ''elifsp'', ''else'', ''elsesp'', ''for'', ''forsp'',
                 ''while'', ''whilesp'']"

lemma main_stems_ok:
  "list_all (\<lambda>stem. stem \<noteq> [] \<and> \<not> is_digit (last stem) \<and> \<not> suffix ''exp'' stem) main_stems"
  by code_simp

lemma first_keyword_mem: "first_keyword ks s = Some (kw, r) \<Longrightarrow> kw \<in> set ks"
  by (induction ks) (auto split: if_splits)

lemma extract_keyword_kw:
  assumes "extract_keyword line = Some (kw, rest)"
  shows "kw \<in> set KEYWORDS" and "strip line \<noteq> []"
  using assms first_keyword_mem[of KEYWORDS "strip line" kw rest] extract_keyword_blank[of line]
  by (auto simp: extract_keyword_def)

text \<open>A label, and an expression label, that carries the number \<open>c\<close>.\<close>

definition main_label :: "string \<Rightarrow> nat \<Rightarrow> bool" where
  "main_label l c = (label_number l = c \<and> \<not> is_exp_label l)"

definition exp_label :: "string \<Rightarrow> nat \<Rightarrow> bool" where
  "exp_label l c = (label_number l = c \<and> is_exp_label l)"

lemma main_label_stem:
  assumes "stem \<in> set main_stems"
  shows "main_label (stem @ str_nat c) c"
proof -
  from assms main_stems_ok have "stem \<noteq> []" "\<not> is_digit (last stem)" "\<not> suffix ''exp'' stem"
    by (auto simp: list_all_iff)
  then show ?thesis
    by (simp add: main_label_def is_exp_label_def label_number_stem)
qed

lemma exp_label_stem: "exp_label ((stem @ ''exp'') @ str_nat c) c"
proof -
  have a: "stem @ ''exp'' \<noteq> []" by simp
  have "last (stem @ ''exp'') = CHR ''p''" by simp
  moreover have "\<not> is_digit (CHR ''p'')" by code_simp
  ultimately have b: "\<not> is_digit (last (stem @ ''exp''))" by simp
  have "suffix ''exp'' (stem @ ''exp'')" by (rule suffix_appendI) simp
  then show ?thesis
    unfolding exp_label_def is_exp_label_def label_number_stem[OF a b] by simp
qed


lemma main_labels:
  "main_label (''if'' @ str_nat c) c" "main_label (''ifsp'' @ str_nat c) c"
  "main_label (''elif'' @ str_nat c) c" "main_label (''elifsp'' @ str_nat c) c"
  "main_label (''else'' @ str_nat c) c" "main_label (''elsesp'' @ str_nat c) c"
  "main_label (''for'' @ str_nat c) c" "main_label (''forsp'' @ str_nat c) c"
  "main_label (''while'' @ str_nat c) c" "main_label (''whilesp'' @ str_nat c) c"
  by (rule main_label_stem, simp add: main_stems_def)+

lemma exp_labels:
  "exp_label (''ifexp'' @ str_nat c) c" "exp_label (''ifspexp'' @ str_nat c) c"
  "exp_label (''elifexp'' @ str_nat c) c" "exp_label (''elifspexp'' @ str_nat c) c"
  using exp_label_stem[of "''if''" c] exp_label_stem[of "''ifsp''" c]
    exp_label_stem[of "''elif''" c] exp_label_stem[of "''elifsp''" c]
  by simp_all

lemma label_line_kw:
  assumes "extract_keyword line = Some (kw, rest)"
  shows "count (label_line s line) = count s + 1 \<and>
    ((\<exists>a. listM (label_line s line) = listM s @ [a] \<and> main_label a (count s + 1)) \<or>
     (\<exists>a b. listM (label_line s line) = listM s @ [a, b] \<and> main_label a (count s + 1) \<and>
            exp_label b (count s + 1)))"
proof -
  from extract_keyword_kw[OF assms] have
    kw: "kw = ''if'' \<or> kw = ''elif'' \<or> kw = ''else'' \<or> kw = ''for'' \<or> kw = ''while''"
    and nb: "strip line \<noteq> []"
    by (auto simp: KEYWORDS_def)
  note lab = main_labels[of "count s + 1", simplified] exp_labels[of "count s + 1", simplified]
  from kw show ?thesis
  proof (elim disjE)
    assume "kw = ''if''"
    with nb assms lab show ?thesis by (simp add: label_line_def Let_def)
  next
    assume "kw = ''elif''"
    with nb assms lab show ?thesis by (simp add: label_line_def Let_def)
  next
    assume "kw = ''else''"
    with nb assms lab show ?thesis by (simp add: label_line_def Let_def)
  next
    assume "kw = ''for''"
    with nb assms lab show ?thesis by (simp add: label_line_def Let_def)
  next
    assume "kw = ''while''"
    with nb assms lab show ?thesis by (simp add: label_line_def Let_def)
  qed
qed


lemma label_lines_snoc: "label_lines (ls @ [l]) = label_line (label_lines ls) l"
  by (simp add: label_lines_def)

lemma main_exp_differ: "main_label a c \<Longrightarrow> exp_label b c \<Longrightarrow> a \<noteq> b"
  by (auto simp: main_label_def exp_label_def)

text \<open>What holds of the labeler state after any list of lines.\<close>

lemma labeler_invariant:
  "count (label_lines ls) = length (filter (\<lambda>l. extract_keyword l \<noteq> None) ls) \<and>
   map label_number (filter (\<lambda>l. \<not> is_exp_label l) (listM (label_lines ls))) =
     [1..<Suc (count (label_lines ls))] \<and>
   (\<forall>l\<in>set (listM (label_lines ls)). 1 \<le> label_number l \<and> label_number l \<le> count (label_lines ls)) \<and>
   distinct (listM (label_lines ls)) \<and>
   sorted (map label_number (listM (label_lines ls)))"
proof (induction ls rule: rev_induct)
  case Nil
  then show ?case by (simp add: label_lines_def init_lstate_def)
next
  case (snoc l ls)
  let ?s = "label_lines ls"
  let ?c = "count ?s + 1"
  from snoc have ih1: "count ?s = length (filter (\<lambda>l. extract_keyword l \<noteq> None) ls)"
    and ih2: "map label_number (filter (\<lambda>l. \<not> is_exp_label l) (listM ?s)) = [1..<Suc (count ?s)]"
    and ih3: "\<forall>l\<in>set (listM ?s). 1 \<le> label_number l \<and> label_number l \<le> count ?s"
    and ih4: "distinct (listM ?s)"
    and ih5: "sorted (map label_number (listM ?s))"
    by blast+
  show ?case
  proof (cases "extract_keyword l")
    case None
    from label_line_nokw[OF None, of ?s] have "count (label_line ?s l) = count ?s"
      "listM (label_line ?s l) = listM ?s"
      by simp_all
    with ih1 ih2 ih3 ih4 ih5 None show ?thesis
      by (simp add: label_lines_snoc del: upt_Suc)
  next
    case (Some p)
    obtain kw rest where p: "p = (kw, rest)" by (cases p)
    from label_line_kw[OF Some[unfolded p], of ?s] have c: "count (label_line ?s l) = ?c"
      and d: "(\<exists>a. listM (label_line ?s l) = listM ?s @ [a] \<and> main_label a ?c) \<or>
              (\<exists>a b. listM (label_line ?s l) = listM ?s @ [a, b] \<and> main_label a ?c \<and> exp_label b ?c)"
      by simp_all
    have old: "\<forall>x\<in>set (listM ?s). label_number x < ?c" using ih3 by auto
    have cnt: "count (label_lines (ls @ [l])) = length (filter (\<lambda>l. extract_keyword l \<noteq> None) (ls @ [l]))"
      using c ih1 Some by (simp add: label_lines_snoc)
    have up: "[1..<Suc ?c] = [1..<Suc (count ?s)] @ [?c]" by simp
    from d show ?thesis
    proof (elim disjE exE conjE)
      fix a assume a: "listM (label_line ?s l) = listM ?s @ [a]" "main_label a ?c"
      then have n: "label_number a = ?c" "\<not> is_exp_label a" by (simp_all add: main_label_def)
      have na: "a \<notin> set (listM ?s)" using old n(1) by auto
      have 1: "map label_number (filter (\<lambda>l. \<not> is_exp_label l) (listM (label_lines (ls @ [l])))) =
               [1..<Suc (count (label_lines (ls @ [l])))]"
        unfolding label_lines_snoc c up using a(1) n ih2 by simp
      have 2: "\<forall>x\<in>set (listM (label_lines (ls @ [l]))). 1 \<le> label_number x \<and>
                 label_number x \<le> count (label_lines (ls @ [l]))"
        unfolding label_lines_snoc c using a(1) n ih3 by auto
      have 3: "distinct (listM (label_lines (ls @ [l])))"
        unfolding label_lines_snoc using a(1) na ih4 by simp
      have 4: "sorted (map label_number (listM (label_lines (ls @ [l]))))"
        unfolding label_lines_snoc using a(1) n(1) old ih5 by (auto simp: sorted_append intro: less_imp_le)
      from cnt 1 2 3 4 show ?thesis by blast
    next
      fix a b assume a: "listM (label_line ?s l) = listM ?s @ [a, b]" "main_label a ?c" "exp_label b ?c"
      then have n: "label_number a = ?c" "\<not> is_exp_label a" "label_number b = ?c" "is_exp_label b"
        by (simp_all add: main_label_def exp_label_def)
      have na: "a \<notin> set (listM ?s)" "b \<notin> set (listM ?s)" "a \<noteq> b" using old n by auto
      have 1: "map label_number (filter (\<lambda>l. \<not> is_exp_label l) (listM (label_lines (ls @ [l])))) =
               [1..<Suc (count (label_lines (ls @ [l])))]"
        unfolding label_lines_snoc c up using a(1) n ih2 by simp
      have 2: "\<forall>x\<in>set (listM (label_lines (ls @ [l]))). 1 \<le> label_number x \<and>
                 label_number x \<le> count (label_lines (ls @ [l]))"
        unfolding label_lines_snoc c using a(1) n ih3 by auto
      have 3: "distinct (listM (label_lines (ls @ [l])))"
        unfolding label_lines_snoc using a(1) na ih4 by simp
      have 4: "sorted (map label_number (listM (label_lines (ls @ [l]))))"
        unfolding label_lines_snoc using a(1) n(1,3) old ih5 by (auto simp: sorted_append intro: less_imp_le)
      from cnt 1 2 3 4 show ?thesis by blast
    qed
  qed
qed

lemma label_number_start_end: "label_number ''start'' = 0" "label_number ''end'' = 0"
  by code_simp+

lemma listM_not_start_end:
  assumes "l \<in> set (listM (label_lines ls))"
  shows "l \<noteq> ''start'' \<and> l \<noteq> ''end''"
proof -
  from labeler_invariant[of ls] assms have "1 \<le> label_number l" by blast
  then show ?thesis using label_number_start_end by auto
qed

lemma create_nodes_fold:
  "distinct (ks @ ls) \<Longrightarrow> foldl (\<lambda>ks k. if k \<in> set ks then ks else ks @ [k]) ks ls = ks @ ls"
  by (induction ls arbitrary: ks) auto

lemma create_nodes_distinct: "distinct ls \<Longrightarrow> create_nodes ls = ls"
  using create_nodes_fold[of "[]" ls] by (simp add: create_nodes_def)

lemma build_listM_distinct: "distinct (build_listM source)"
  using labeler_invariant[of "splitlines source"] listM_not_start_end[of _ "splitlines source"]
  by (auto simp: build_listM_def)

text \<open>
  Claim C9.  For every source text the label sequence returned by the labeler has no
  label twice, so the order-preserving removal of duplicates changes nothing: the node
  list returned by the edge generator is the label sequence itself.
\<close>

theorem C9_labels_distinct:
  "distinct (build_listM source) \<and> fst (generate_cfg (build_listM source)) = build_listM source"
  by (simp add: build_listM_distinct generate_cfg_def Let_def create_nodes_distinct)

theorem C9_labels_distinct_witness:
  "distinct (build_listM sample_program) \<and>
   fst (generate_cfg (build_listM sample_program)) =
     [''start'', ''if1'', ''ifexp1'', ''elif2'', ''elifexp2'', ''elif3'', ''elifexp3'',
      ''else4'', ''end'']"
  using C9_labels_distinct[of sample_program] by (simp add: sample_listM)

lemma filter_main_build:
  "filter (\<lambda>l. \<not> is_exp_label l \<and> l \<noteq> ''start'' \<and> l \<noteq> ''end'') (build_listM source) =
   filter (\<lambda>l. \<not> is_exp_label l) (listM (label_lines (splitlines source)))"
proof -
  have "filter (\<lambda>l. \<not> is_exp_label l \<and> l \<noteq> ''start'' \<and> l \<noteq> ''end'') (listM (label_lines (splitlines source))) =
        filter (\<lambda>l. \<not> is_exp_label l) (listM (label_lines (splitlines source)))"
    by (rule filter_cong) (use listM_not_start_end in auto)
  then show ?thesis by (simp add: build_listM_def)
qed

text \<open>
  Claim C6.  One line raises the counter by 1 when it starts with a keyword and leaves
  it unchanged otherwise, whatever the keyword; so after all lines the counter is the
  number of keyword lines.  The labels returned other than start, end and the
  expression labels carry the numbers 1, 2, ... up to that count, in this order, so
  there are as many of them as keyword lines, without gap or reuse; and the numbers of
  all emitted labels, expression labels included, never decrease along the sequence.
\<close>

theorem C6_counter_numbering:
  "count (label_line s line) = count s + (if extract_keyword line = None then 0 else 1) \<and>
   count (label_lines (splitlines source)) =
     length (filter (\<lambda>l. extract_keyword l \<noteq> None) (splitlines source)) \<and>
   map label_number
     (filter (\<lambda>l. \<not> is_exp_label l \<and> l \<noteq> ''start'' \<and> l \<noteq> ''end'') (build_listM source)) =
     [1..<Suc (length (filter (\<lambda>l. extract_keyword l \<noteq> None) (splitlines source)))] \<and>
   length (filter (\<lambda>l. \<not> is_exp_label l \<and> l \<noteq> ''start'' \<and> l \<noteq> ''end'') (build_listM source)) =
     length (filter (\<lambda>l. extract_keyword l \<noteq> None) (splitlines source)) \<and>
   sorted (map label_number (butlast (tl (build_listM source))))"
proof -
  have step: "count (label_line s line) = count s + (if extract_keyword line = None then 0 else 1)"
  proof (cases "extract_keyword line")
    case None
    with label_line_nokw[OF None, of s] show ?thesis by simp
  next
    case (Some p)
    obtain kw rest where "p = (kw, rest)" by (cases p)
    with Some label_line_kw[of line kw rest s] show ?thesis by simp
  qed
  let ?n = "length (filter (\<lambda>l. extract_keyword l \<noteq> None) (splitlines source))"
  from labeler_invariant[of "splitlines source"] have
    c: "count (label_lines (splitlines source)) = ?n"
    and m: "map label_number (filter (\<lambda>l. \<not> is_exp_label l) (listM (label_lines (splitlines source)))) =
            [1..<Suc ?n]"
    and so: "sorted (map label_number (listM (label_lines (splitlines source))))"
    by simp_all
  have m': "map label_number
     (filter (\<lambda>l. \<not> is_exp_label l \<and> l \<noteq> ''start'' \<and> l \<noteq> ''end'') (build_listM source)) = [1..<Suc ?n]"
    using m by (simp only: filter_main_build)
  have len: "length (filter (\<lambda>l. \<not> is_exp_label l \<and> l \<noteq> ''start'' \<and> l \<noteq> ''end'') (build_listM source)) = ?n"
    using arg_cong[OF m', of length] by (simp del: upt_Suc)
  have b: "butlast (tl (build_listM source)) = listM (label_lines (splitlines source))"
    by (simp add: build_listM_def)
  from step c m' len so show ?thesis
    unfolding b by blast
qed

theorem C6_counter_numbering_witness:
  "count (label_lines (splitlines sample_program)) = 4 \<and>
   map label_number
     (filter (\<lambda>l. \<not> is_exp_label l \<and> l \<noteq> ''start'' \<and> l \<noteq> ''end'') (build_listM sample_program)) =
     [1, 2, 3, 4] \<and>
   filter (\<lambda>l. \<not> is_exp_label l \<and> l \<noteq> ''start'' \<and> l \<noteq> ''end'') (build_listM sample_program) =
     [''if1'', ''elif2'', ''elif3'', ''else4'']"
proof -
  have n: "length (filter (\<lambda>l. extract_keyword l \<noteq> None) (splitlines sample_program)) = 4"
    by code_simp
  have f: "filter (\<lambda>l. \<not> is_exp_label l \<and> l \<noteq> ''start'' \<and> l \<noteq> ''end'') (build_listM sample_program) =
     [''if1'', ''elif2'', ''elif3'', ''else4'']"
    unfolding sample_listM by code_simp
  have u: "[1..<Suc 4] = [1, 2, 3, 4::nat]" by code_simp
  note t = C6_counter_numbering[of init_lstate "[]" sample_program, unfolded n u]
  from t f show ?thesis
    by blast
qed

section \<open>Lines without a keyword and the nesting stack\<close>

lemma pop_ended_keep:
  "stk = [] \<or> fst (last stk) < lvl \<Longrightarrow> pop_ended lvl stk = stk"
  by (subst pop_ended.simps) auto

lemma pop_ended_twice: "b \<le> a \<Longrightarrow> pop_ended b (pop_ended a stk) = pop_ended b stk"
proof (induction a stk rule: pop_ended.induct)
  case (1 lvl stk)
  show ?case
  proof (cases "stk \<noteq> [] \<and> lvl \<le> fst (last stk)")
    case True
    then have "pop_ended lvl stk = pop_ended lvl (butlast stk)"
      by (subst pop_ended.simps) simp
    moreover have "pop_ended b stk = pop_ended b (butlast stk)"
      using True "1.prems" by (subst pop_ended.simps) simp
    ultimately show ?thesis using "1.IH"[OF True "1.prems"] by simp
  next
    case False
    then have "pop_ended lvl stk = stk"
      by (subst pop_ended.simps) auto
    then show ?thesis by simp
  qed
qed

lemma label_line_stack_only:
  "strip nxt \<noteq> [] \<Longrightarrow> pop_ended (indent_level nxt) stk = pop_ended (indent_level nxt) (stack s) \<Longrightarrow>
   label_line (s\<lparr>stack := stk\<rparr>) nxt = label_line s nxt"
  by (simp add: label_line_def Let_def split: option.splits)

definition with_def :: string where
  "with_def = ''if a:'' @ [CHR 0x0A] @ ''    x = 1'' @ [CHR 0x0A] @ ''def f():'' @ [CHR 0x0A] @
              ''    while y:'' @ [CHR 0x0A] @ ''        y = 0'' @ [CHR 0x0A]"

definition without_def :: string where
  "without_def = ''if a:'' @ [CHR 0x0A] @ ''    x = 1'' @ [CHR 0x0A] @
                 ''    while y:'' @ [CHR 0x0A] @ ''        y = 0'' @ [CHR 0x0A]"

text \<open>
  The claim as the specification states it fails: the line def f(): is not blank and
  starts with no keyword, yet with it the while line is labelled while2, and without it
  whilesp2.  The line pops the entry of the if block from the stack.
\<close>

theorem C4_counterexample:
  "splitlines with_def = [''if a:'', ''    x = 1'', ''def f():'', ''    while y:'', ''        y = 0''] \<and>
   splitlines without_def = [''if a:'', ''    x = 1'', ''    while y:'', ''        y = 0''] \<and>
   strip ''def f():'' \<noteq> [] \<and> extract_keyword ''def f():'' = None \<and>
   build_listM with_def = [''start'', ''if1'', ''ifexp1'', ''while2'', ''end''] \<and>
   build_listM without_def = [''start'', ''if1'', ''ifexp1'', ''whilesp2'', ''end''] \<and>
   build_listM with_def \<noteq> build_listM without_def"
  by code_simp

text \<open>
  Claim C4, as the code has it.  A non-blank line that starts with no keyword leaves the
  counter and the emitted labels unchanged; its only effect is to pop from the nesting
  stack the entries whose depth is at least its indentation.  So it leaves the whole
  state unchanged when the stack is empty or its top entry is less deep than the line;
  and inserting or removing it in front of a non-blank line that is indented no deeper
  than it leaves the labeler's output unchanged.
\<close>

theorem C4_non_keyword_line:
  assumes "strip line \<noteq> []" and "extract_keyword line = None"
  shows "count (label_line s line) = count s \<and>
         listM (label_line s line) = listM s \<and>
         stack (label_line s line) = pop_ended (indent_level line) (stack s) \<and>
         (stack s = [] \<or> fst (last (stack s)) < indent_level line \<longrightarrow>
            label_line s line = s) \<and>
         (strip nxt \<noteq> [] \<and> indent_level nxt \<le> indent_level line \<and>
          splitlines src1 = pre @ line # nxt # post \<and> splitlines src2 = pre @ nxt # post \<longrightarrow>
            build_listM src1 = build_listM src2)"
proof -
  have eq: "label_line s line = s\<lparr>stack := pop_ended (indent_level line) (stack s)\<rparr>" for s
    using assms by (simp add: label_line_def Let_def)
  have a: "count (label_line s line) = count s" "listM (label_line s line) = listM s"
    "stack (label_line s line) = pop_ended (indent_level line) (stack s)"
    by (simp_all add: eq)
  have b: "label_line s line = s" if "stack s = [] \<or> fst (last (stack s)) < indent_level line"
    using pop_ended_keep[OF that] by (simp add: eq)
  have c: "build_listM src1 = build_listM src2"
    if n: "strip nxt \<noteq> []" "indent_level nxt \<le> indent_level line"
      and s1: "splitlines src1 = pre @ line # nxt # post" and s2: "splitlines src2 = pre @ nxt # post"
  proof -
    let ?s = "foldl label_line init_lstate pre"
    have "label_line (label_line ?s line) nxt = label_line ?s nxt"
      unfolding eq[of ?s]
      by (rule label_line_stack_only[OF n(1)]) (simp add: pop_ended_twice[OF n(2)])
    then have "label_lines (pre @ line # nxt # post) = label_lines (pre @ nxt # post)"
      by (simp add: label_lines_def)
    then show ?thesis by (simp add: build_listM_def s1 s2)
  qed
  from a b c show ?thesis by blast
qed

definition with_comment :: string where
  "with_comment = ''if a:'' @ [CHR 0x0A] @ ''    x = 1'' @ [CHR 0x0A] @ ''    print(x)'' @ [CHR 0x0A] @
              ''    while y:'' @ [CHR 0x0A] @ ''        y = 0'' @ [CHR 0x0A]"

theorem C4_non_keyword_line_witness:
  "strip ''    print(x)'' \<noteq> [] \<and> extract_keyword ''    print(x)'' = None \<and>
   strip ''    while y:'' \<noteq> [] \<and> indent_level ''    while y:'' \<le> indent_level ''    print(x)'' \<and>
   splitlines with_comment = [''if a:'', ''    x = 1''] @ ''    print(x)'' # ''    while y:'' # [''        y = 0''] \<and>
   splitlines without_def = [''if a:'', ''    x = 1''] @ ''    while y:'' # [''        y = 0''] \<and>
   build_listM with_comment = build_listM without_def \<and>
   label_line init_lstate ''    print(x)'' = init_lstate"
proof -
  have h1: "strip ''    print(x)'' \<noteq> []" by code_simp
  have h2: "extract_keyword ''    print(x)'' = None" by code_simp
  have h3: "strip ''    while y:'' \<noteq> []" by code_simp
  have h4: "indent_level ''    while y:'' \<le> indent_level ''    print(x)''" by code_simp
  have h5: "splitlines with_comment = [''if a:'', ''    x = 1''] @ ''    print(x)'' # ''    while y:'' # [''        y = 0'']"
    by code_simp
  have h6: "splitlines without_def = [''if a:'', ''    x = 1''] @ ''    while y:'' # [''        y = 0'']"
    by code_simp
  have h7: "stack init_lstate = []" by (simp add: init_lstate_def)
  from C4_non_keyword_line[OF h1 h2, of init_lstate "''    while y:''" with_comment "[''if a:'', ''    x = 1'']"
      "[''        y = 0'']" without_def]
  have "label_line init_lstate ''    print(x)'' = init_lstate" "build_listM with_comment = build_listM without_def"
    using h3 h4 h5 h6 h7 by simp_all
  with h1 h2 h3 h4 h5 h6 show ?thesis by blast
qed

end
